theory Spec2Isabelle
  imports Main "HOL-Library.Word" "HOL-Library.Char_ord" "HOL-Library.List_Lexorder"
begin

section \<open>Data model of store/hbase/snapshot.go\<close>

text \<open>
  Keys and values are Go byte slices; \<open>string(r.Row)\<close> converts byte for byte, so both
  are modelled as \<open>string\<close> (a list of 8-bit characters), ordered lexicographically.
  A nil slice and an empty slice are both the empty list.
\<close>

type_synonym bytes = string
type_synonym u64 = "64 word"

text \<open>\<open>kv.Version\<close>: a struct with the single unsigned 64-bit field \<open>Ver\<close>.\<close>

record Version =
  Ver :: u64

text \<open>
  Errors. The engine's failures are opaque to the adapter. \<open>errors.Trace\<close> wraps an
  error with the caller's location and keeps its cause; \<open>Cause\<close> strips the wrappers.
\<close>

datatype engine_error = EngineError string

datatype error = ErrNotExist | Underlying engine_error | Trace error

fun Cause :: "error \<Rightarrow> error" where
  "Cause (Trace e) = Cause e"
| "Cause ErrNotExist = ErrNotExist"
| "Cause (Underlying e) = Underlying e"

text \<open>A Go call either returns or panics (a nil pointer dereference).\<close>

datatype 'a outcome = Returned 'a | Panic

text \<open>
  \<open>hbase.ResultRow\<close> as the adapter reads it: the row key and the map from column
  identity (\<open>family:qualifier\<close>) to a pointer to a cell, of which only \<open>Value\<close> is read.
  The map is kept as an association list; \<open>len(r.Columns) == 0\<close> is \<open>Columns r = []\<close>.
  Indexing the map at a missing key yields a nil cell pointer, and reading \<open>.Value\<close>
  through it panics.
\<close>

record Kv =
  Value :: bytes

record ResultRow =
  Row :: bytes
  Columns :: "(string \<times> Kv) list"

text \<open>
  \<open>hbase.Get\<close>: the single-row request. \<open>NewGet\<close> fills in the row,
  \<open>AddColumn\<close> adds a (family, qualifier) pair to the column selector, and the adapter
  assigns the two timestamp fields directly.
\<close>

record hbaseGet =
  GetRow :: bytes
  GetColumns :: "(bytes \<times> bytes) list"
  TsRangeFrom :: u64
  TsRangeTo :: u64

definition NewGet :: "bytes \<Rightarrow> hbaseGet" where
  "NewGet row = \<lparr>GetRow = row, GetColumns = [], TsRangeFrom = 0, TsRangeTo = 0\<rparr>"

definition AddColumn :: "hbaseGet \<Rightarrow> bytes \<Rightarrow> bytes \<Rightarrow> hbaseGet" where
  "AddColumn g family qual = g\<lparr>GetColumns := GetColumns g @ [(family, qual)]\<rparr>"

text \<open>
  Modelled from the spec: the fixed column family, qualifier and their joined identity
  are package constants declared outside this file. The spec only says that they are a
  fixed family and qualifier pair and that a row result is keyed by \<open>family:qualifier\<close>;
  the general theorems below never unfold the two names.
\<close>

definition hbaseColFamilyBytes :: bytes where
  "hbaseColFamilyBytes = ''f''"

definition hbaseQualifierBytes :: bytes where
  "hbaseQualifierBytes = ''q''"

definition colKey :: "bytes \<times> bytes \<Rightarrow> string" where
  "colKey c = fst c @ '':'' @ snd c"

definition hbaseFmlAndQual :: string where
  "hbaseFmlAndQual = colKey (hbaseColFamilyBytes, hbaseQualifierBytes)"

text \<open>\<open>hbaseBatchSize\<close> is used for the go-themis scanner.\<close>

definition hbaseBatchSize :: int where
  "hbaseBatchSize = 1000"

subsection \<open>The transactional engine as a parameter\<close>

text \<open>
  The transaction handle and its cursors belong to the external engine. Its read
  operations are parameters of the adapter: \<open>txnGet\<close> and \<open>txnBatchGet\<close> answer a
  request on a table with either an engine error or (pointers to) row results, and
  \<open>scanRows\<close> gives the rows a cursor over (table, start, stop, batch size, time range)
  yields, in order, before it reports end of data.
\<close>

record engine =
  txnGet :: "string \<Rightarrow> hbaseGet \<Rightarrow> engine_error + ResultRow option"
  txnBatchGet :: "string \<Rightarrow> hbaseGet list \<Rightarrow> engine_error + ResultRow option list"
  scanRows :: "bytes \<Rightarrow> bytes \<Rightarrow> bytes \<Rightarrow> int \<Rightarrow> (u64 \<times> u64) option \<Rightarrow> ResultRow list"

text \<open>
  A cursor (\<open>themis.ThemisScanner\<close>) is a mutable object shared between the engine and
  the iterator that embeds a pointer to it, so cursors live in a store and are named by
  their index. The store also records every release of a transaction handle and every
  logged error.
\<close>

record scanner =
  scTable :: bytes
  scStart :: bytes
  scStop :: bytes
  scBatch :: int
  scTimeRange :: "(u64 \<times> u64) option"
  scPos :: nat
  scClosed :: bool
  scCloses :: nat

record world =
  cursors :: "scanner list"
  release_log :: "nat list"
  error_log :: "string list"

text \<open>\<open>hbaseSnapshot\<close>: a pointer to the transaction handle (nil once released) and the table name.\<close>

record hbaseSnapshot =
  txn :: "nat option"
  storeName :: string

section \<open>Point reads\<close>

text \<open>
  A method called through a nil handle pointer dereferences it inside the engine; the
  model makes that a panic. \<open>internalGet\<close> returns the engine's error traced, NotFound
  traced when the row pointer is nil or the row has no columns, and otherwise the value
  of the fixed column.
\<close>

definition internalGet :: "engine \<Rightarrow> hbaseSnapshot \<Rightarrow> hbaseGet \<Rightarrow> (error + bytes) outcome" where
  "internalGet E s g =
     (case txn s of
        None \<Rightarrow> Panic
      | Some h \<Rightarrow>
          (case txnGet E (storeName s) g of
             Inl err \<Rightarrow> Returned (Inl (Trace (Underlying err)))
           | Inr r \<Rightarrow>
               (case r of
                  None \<Rightarrow> Returned (Inl (Trace ErrNotExist))
                | Some row \<Rightarrow>
                    if length (Columns row) = 0 then Returned (Inl (Trace ErrNotExist))
                    else (case map_of (Columns row) hbaseFmlAndQual of
                            None \<Rightarrow> Panic
                          | Some c \<Rightarrow> Returned (Inr (Value c))))))"

text \<open>The request built by \<open>Get\<close> (and, per key, by \<open>BatchGet\<close>).\<close>

definition GetRequest :: "bytes \<Rightarrow> hbaseGet" where
  "GetRequest k = AddColumn (NewGet k) hbaseColFamilyBytes hbaseQualifierBytes"

text \<open>The caller's \<open>if err != nil { return nil, errors.Trace(err) }\<close>.\<close>

definition traceErr :: "(error + 'a) outcome \<Rightarrow> (error + 'a) outcome" where
  "traceErr r = (case r of
                   Panic \<Rightarrow> Panic
                 | Returned (Inl err) \<Rightarrow> Returned (Inl (Trace err))
                 | Returned (Inr v) \<Rightarrow> Returned (Inr v))"

definition Get :: "engine \<Rightarrow> hbaseSnapshot \<Rightarrow> bytes \<Rightarrow> (error + bytes) outcome" where
  "Get E s k = traceErr (internalGet E s (GetRequest k))"

text \<open>The request built by \<open>MvccGet\<close>: the ceiling is \<open>ver.Ver + 1\<close> on uint64, which wraps.\<close>

definition MvccGetRequest :: "bytes \<Rightarrow> Version \<Rightarrow> hbaseGet" where
  "MvccGetRequest k ver =
     (AddColumn (NewGet k) hbaseColFamilyBytes hbaseQualifierBytes)
       \<lparr>TsRangeFrom := 0, TsRangeTo := Ver ver + 1\<rparr>"

definition MvccGet :: "engine \<Rightarrow> hbaseSnapshot \<Rightarrow> bytes \<Rightarrow> Version \<Rightarrow> (error + bytes) outcome" where
  "MvccGet E s k ver = traceErr (internalGet E s (MvccGetRequest k ver))"

text \<open>
  The engine's column selector: a fetched row carries no column outside the ones the
  request selects. The adapter relies on it when it indexes the fixed column of a row
  that has at least one column.
\<close>

definition withinSelector :: "hbaseGet \<Rightarrow> ResultRow \<Rightarrow> bool" where
  "withinSelector g r = (fst ` set (Columns r) \<subseteq> colKey ` set (GetColumns g))"

text \<open>The fetched row is absent or carries no value in the fixed column.\<close>

definition noValue :: "ResultRow option \<Rightarrow> bool" where
  "noValue r = (case r of None \<Rightarrow> True | Some row \<Rightarrow> map_of (Columns row) hbaseFmlAndQual = None)"

definition failsNotFound :: "(error + 'a) outcome \<Rightarrow> bool" where
  "failsNotFound r = (case r of Returned (Inl err) \<Rightarrow> Cause err = ErrNotExist | _ \<Rightarrow> False)"


section \<open>Batch read\<close>

text \<open>
  The loop over the returned rows: \<open>r.Row\<close> dereferences the row pointer and
  \<open>r.Columns[hbaseFmlAndQual].Value\<close> the cell pointer, with no check of either.
\<close>

fun BatchGetRows :: "ResultRow option list \<Rightarrow> (string \<rightharpoonup> bytes) \<Rightarrow> (string \<rightharpoonup> bytes) outcome" where
  "BatchGetRows [] m = Returned m"
| "BatchGetRows (r # rows) m =
     (case r of
        None \<Rightarrow> Panic
      | Some row \<Rightarrow>
          (case map_of (Columns row) hbaseFmlAndQual of
             None \<Rightarrow> Panic
           | Some c \<Rightarrow> BatchGetRows rows (m(Row row \<mapsto> Value c))))"

definition BatchGet :: "engine \<Rightarrow> hbaseSnapshot \<Rightarrow> bytes list \<Rightarrow> (error + (string \<rightharpoonup> bytes)) outcome" where
  "BatchGet E s keys =
     (case txn s of
        None \<Rightarrow> Panic
      | Some h \<Rightarrow>
          (case txnBatchGet E (storeName s) (map GetRequest keys) of
             Inl err \<Rightarrow> Returned (Inl (Trace (Underlying err)))
           | Inr rows \<Rightarrow>
               (case BatchGetRows rows Map.empty of
                  Panic \<Rightarrow> Panic
                | Returned m \<Rightarrow> Returned (Inr m))))"

section \<open>Cursors\<close>

text \<open>\<open>txn.GetScanner\<close> allocates a fresh, open cursor positioned before the first row.\<close>

definition GetScanner :: "bytes \<Rightarrow> bytes \<Rightarrow> bytes \<Rightarrow> int \<Rightarrow> world \<Rightarrow> world \<times> nat" where
  "GetScanner tbl start stop batch w =
     (w\<lparr>cursors := cursors w @
          [\<lparr>scTable = tbl, scStart = start, scStop = stop, scBatch = batch,
            scTimeRange = None, scPos = 0, scClosed = False, scCloses = 0\<rparr>]\<rparr>,
      length (cursors w))"

definition SetTimeRange :: "nat \<Rightarrow> u64 \<Rightarrow> u64 \<Rightarrow> world \<Rightarrow> world" where
  "SetTimeRange sc from to w =
     (if sc < length (cursors w)
      then w\<lparr>cursors := (cursors w)[sc := (cursors w ! sc)\<lparr>scTimeRange := Some (from, to)\<rparr>]\<rparr>
      else w)"

text \<open>The rows the cursor yields over its whole life.\<close>

definition scannerRows :: "engine \<Rightarrow> scanner \<Rightarrow> ResultRow list" where
  "scannerRows E c = scanRows E (scTable c) (scStart c) (scStop c) (scBatch c) (scTimeRange c)"

text \<open>\<open>scanner.Next()\<close>: the next row, or nil at end of data or on a closed cursor.\<close>

definition scannerNext :: "engine \<Rightarrow> nat \<Rightarrow> world \<Rightarrow> world \<times> ResultRow option" where
  "scannerNext E sc w =
     (if sc < length (cursors w)
      then (let c = cursors w ! sc in
            if scClosed c \<or> length (scannerRows E c) \<le> scPos c then (w, None)
            else (w\<lparr>cursors := (cursors w)[sc := c\<lparr>scPos := Suc (scPos c)\<rparr>]\<rparr>,
                  Some (scannerRows E c ! scPos c)))
      else (w, None))"

definition scannerClose :: "nat \<Rightarrow> world \<Rightarrow> world" where
  "scannerClose sc w =
     (if sc < length (cursors w)
      then w\<lparr>cursors := (cursors w)[sc := (cursors w ! sc)\<lparr>scClosed := True,
                 scCloses := Suc (scCloses (cursors w ! sc))\<rparr>]\<rparr>
      else w)"

definition scannerClosed :: "nat \<Rightarrow> world \<Rightarrow> bool" where
  "scannerClosed sc w = (if sc < length (cursors w) then scClosed (cursors w ! sc) else True)"

section \<open>Range read\<close>

text \<open>The loop \<open>for i := 0; i < limit; i++\<close> of \<open>RangeGet\<close>, with its \<open>break\<close>.\<close>

function RangeGetLoop ::
  "engine \<Rightarrow> nat \<Rightarrow> int \<Rightarrow> int \<Rightarrow> world \<Rightarrow> (string \<rightharpoonup> bytes) \<Rightarrow> world \<times> (string \<rightharpoonup> bytes) outcome" where
  "RangeGetLoop E sc limit i w m =
     (if i < limit
      then (case scannerNext E sc w of
              (w', None) \<Rightarrow> (w', Returned m)
            | (w', Some row) \<Rightarrow>
                if length (Columns row) > 0
                then (case map_of (Columns row) hbaseFmlAndQual of
                        None \<Rightarrow> (w', Panic)
                      | Some c \<Rightarrow> RangeGetLoop E sc limit (i + 1) w' (m(Row row \<mapsto> Value c)))
                else (w', Returned m))
      else (w, Returned m))"
  by pat_completeness auto
termination
  by (relation "measure (\<lambda>(E, sc, limit, i, w, m). nat (limit - i))") auto

declare RangeGetLoop.simps [simp del]

text \<open>
  \<open>RangeGet\<close>: open the cursor, defer its close, run the loop, return the map and a nil
  error. The deferred close runs on every way out of the function, a panic included.
\<close>

definition RangeGet ::
  "engine \<Rightarrow> hbaseSnapshot \<Rightarrow> bytes \<Rightarrow> bytes \<Rightarrow> int \<Rightarrow> world \<Rightarrow> world \<times> (error + (string \<rightharpoonup> bytes)) outcome" where
  "RangeGet E s start end limit w =
     (case txn s of
        None \<Rightarrow> (w, Panic)
      | Some h \<Rightarrow>
          (case GetScanner (storeName s) start end limit w of
             (w1, sc) \<Rightarrow>
               (case RangeGetLoop E sc limit 0 w1 Map.empty of
                  (w2, res) \<Rightarrow>
                    (scannerClose sc w2,
                     case res of Panic \<Rightarrow> Panic | Returned m \<Rightarrow> Returned (Inr m)))))"

section \<open>Iterator\<close>

text \<open>\<open>hbaseIter\<close>: the embedded cursor pointer and the current row.\<close>

record hbaseIter =
  ThemisScanner :: "nat option"
  rs :: "ResultRow option"

definition Next :: "engine \<Rightarrow> hbaseIter \<Rightarrow> world \<Rightarrow> (world \<times> hbaseIter) outcome" where
  "Next E it w =
     (case ThemisScanner it of
        None \<Rightarrow> Panic
      | Some sc \<Rightarrow> (case scannerNext E sc w of (w', r) \<Rightarrow> Returned (w', it\<lparr>rs := r\<rparr>)))"

definition Valid :: "hbaseIter \<Rightarrow> world \<Rightarrow> bool outcome" where
  "Valid it w =
     (case rs it of
        None \<Rightarrow> Returned False
      | Some row \<Rightarrow>
          if length (Columns row) = 0 then Returned False
          else (case ThemisScanner it of
                  None \<Rightarrow> Panic
                | Some sc \<Rightarrow> if scannerClosed sc w then Returned False else Returned True))"

definition Key :: "hbaseIter \<Rightarrow> string outcome" where
  "Key it = (case rs it of None \<Rightarrow> Panic | Some row \<Rightarrow> Returned (Row row))"

definition ValueOf :: "hbaseIter \<Rightarrow> bytes outcome" where
  "ValueOf it =
     (case rs it of
        None \<Rightarrow> Panic
      | Some row \<Rightarrow>
          (case map_of (Columns row) hbaseFmlAndQual of
             None \<Rightarrow> Panic
           | Some c \<Rightarrow> Returned (Value c)))"

definition Close :: "hbaseIter \<Rightarrow> world \<Rightarrow> world \<times> hbaseIter" where
  "Close it w =
     (case ThemisScanner it of
        Some sc \<Rightarrow> (scannerClose sc w, it\<lparr>ThemisScanner := None, rs := None\<rparr>)
      | None \<Rightarrow> (w, it\<lparr>rs := None\<rparr>))"

definition newInnerScanner :: "engine \<Rightarrow> nat \<Rightarrow> world \<Rightarrow> (world \<times> hbaseIter) outcome" where
  "newInnerScanner E sc w = Next E \<lparr>ThemisScanner = Some sc, rs = None\<rparr> w"

text \<open>
  The dynamically typed parameter of \<open>NewIterator\<close>: only a value whose dynamic type
  is \<open>[]byte\<close> passes the type assertion.
\<close>

datatype param = ByteSlice bytes | StringParam string | IntParam int | NilParam

definition logErrorf :: "string \<Rightarrow> world \<Rightarrow> world" where
  "logErrorf msg w = w\<lparr>error_log := error_log w @ [msg]\<rparr>"

text \<open>The result is the interface value \<open>kv.Iterator\<close>; \<open>None\<close> is the nil interface.\<close>

definition NewIterator :: "engine \<Rightarrow> hbaseSnapshot \<Rightarrow> param \<Rightarrow> world \<Rightarrow> (world \<times> hbaseIter option) outcome" where
  "NewIterator E s p w =
     (case p of
        ByteSlice k \<Rightarrow>
          (case txn s of
             None \<Rightarrow> Panic
           | Some h \<Rightarrow>
               (case GetScanner (storeName s) k [] hbaseBatchSize w of
                  (w1, sc) \<Rightarrow>
                    (case newInnerScanner E sc w1 of
                       Panic \<Rightarrow> Panic
                     | Returned (w2, it) \<Rightarrow> Returned (w2, Some it))))
      | _ \<Rightarrow> Returned (logErrorf ''hbase iterator parameter error'' w, None))"

definition NewMvccIterator :: "engine \<Rightarrow> hbaseSnapshot \<Rightarrow> bytes \<Rightarrow> Version \<Rightarrow> world \<Rightarrow> (world \<times> hbaseIter option) outcome" where
  "NewMvccIterator E s k ver w =
     (case txn s of
        None \<Rightarrow> Panic
      | Some h \<Rightarrow>
          (case GetScanner (storeName s) k [] hbaseBatchSize w of
             (w1, sc) \<Rightarrow>
               (case newInnerScanner E sc (SetTimeRange sc 0 (Ver ver + 1) w1) of
                  Panic \<Rightarrow> Panic
                | Returned (w2, it) \<Rightarrow> Returned (w2, Some it))))"

text \<open>Whether the type assertion \<open>param.([]byte)\<close> succeeds.\<close>

definition isByteSlice :: "param \<Rightarrow> bool" where
  "isByteSlice p = (case p of ByteSlice k \<Rightarrow> True | _ \<Rightarrow> False)"

text \<open>
  A row that carries a value in the fixed column, that value, and the map update
  \<open>m[k] = v\<close> that the batch and range loops perform for such a row.
\<close>

definition hasValue :: "ResultRow \<Rightarrow> bool" where
  "hasValue row = (map_of (Columns row) hbaseFmlAndQual \<noteq> None)"

definition rowValue :: "ResultRow \<Rightarrow> bytes" where
  "rowValue row = (case map_of (Columns row) hbaseFmlAndQual of None \<Rightarrow> [] | Some c \<Rightarrow> Value c)"

definition putRow :: "(string \<rightharpoonup> bytes) \<Rightarrow> ResultRow \<Rightarrow> (string \<rightharpoonup> bytes)" where
  "putRow m row = m(Row row \<mapsto> rowValue row)"


text \<open>The state in which cursor \<open>sc\<close> stands at position \<open>n\<close>.\<close>

definition setPos :: "nat \<Rightarrow> nat \<Rightarrow> world \<Rightarrow> world" where
  "setPos sc n w = w\<lparr>cursors := (cursors w)[sc := (cursors w ! sc)\<lparr>scPos := n\<rparr>]\<rparr>"

text \<open>
  The loop of \<open>RangeGet\<close> as a function of the rows the cursor still has to yield and
  of the number of iterations left.
\<close>

fun loopOnRows :: "ResultRow list \<Rightarrow> nat \<Rightarrow> (string \<rightharpoonup> bytes) \<Rightarrow> (string \<rightharpoonup> bytes) outcome" where
  "loopOnRows rows 0 m = Returned m"
| "loopOnRows [] (Suc n) m = Returned m"
| "loopOnRows (r # rows) (Suc n) m =
     (if Columns r \<noteq> []
      then (if hasValue r then loopOnRows rows n (putRow m r) else Panic)
      else Returned m)"

text \<open>The rows of a scan up to its first columnless row.\<close>

definition qualifying :: "ResultRow list \<Rightarrow> ResultRow list" where
  "qualifying rows = takeWhile (\<lambda>r. Columns r \<noteq> []) rows"

text \<open>
  What a freshly constructed iterator over a cursor yielding \<open>rows\<close> looks like: the
  cursor is open and has been advanced once, the current row is the first row if there
  is one, \<open>Valid\<close> is false on an empty range, and when the first row carries a value
  \<open>Valid\<close> is true and \<open>Key\<close> and \<open>Value\<close> are those of that row.
\<close>

definition primedOn :: "ResultRow list \<Rightarrow> (world \<times> hbaseIter option) outcome \<Rightarrow> bool" where
  "primedOn rows res =
     (case res of
        Returned (w', Some it) \<Rightarrow>
          (case ThemisScanner it of
             None \<Rightarrow> False
           | Some sc \<Rightarrow> sc < length (cursors w') \<and> \<not> scClosed (cursors w' ! sc)
                       \<and> scPos (cursors w' ! sc) = min 1 (length rows))
          \<and> (case rows of
                [] \<Rightarrow> rs it = None \<and> Valid it w' = Returned False
              | r # rest \<Rightarrow>
                  rs it = Some r
                  \<and> (hasValue r \<longrightarrow> Valid it w' = Returned True
                                  \<and> Key it = Returned (Row r)
                                  \<and> ValueOf it = Returned (rowValue r)))
      | _ \<Rightarrow> False)"

section \<open>Release\<close>

text \<open>\<open>txn.Release()\<close> on handle \<open>h\<close> is recorded in the release log.\<close>

definition txnRelease :: "nat \<Rightarrow> world \<Rightarrow> world" where
  "txnRelease h w = w\<lparr>release_log := release_log w @ [h]\<rparr>"

definition Release :: "hbaseSnapshot \<Rightarrow> world \<Rightarrow> world \<times> hbaseSnapshot" where
  "Release s w =
     (case txn s of
        Some h \<Rightarrow> (txnRelease h w, s\<lparr>txn := None\<rparr>)
      | None \<Rightarrow> (w, s))"

definition MvccRelease :: "hbaseSnapshot \<Rightarrow> world \<Rightarrow> world \<times> hbaseSnapshot" where
  "MvccRelease s w = Release s w"

section \<open>A versioned store behind the single-row fetch\<close>

text \<open>
  Modelled from the spec: the engine's single-row fetch with an optional version
  ceiling is not part of this file. Following the spec's data model, a row holds a set
  of committed timestamp versions of the fixed column. A request whose two time range
  fields are both zero, as \<open>NewGet\<close> leaves them and as plain \<open>Get\<close> sends it,
  carries no ceiling and is answered with the latest version of all; any other request
  is answered with the latest version whose timestamp lies in the half-open range
  \<open>[TsRangeFrom, TsRangeTo)\<close>; there is no row when there is no such version.
  \<open>latest\<close> picks the entry with the greatest timestamp.
\<close>

fun latest :: "(u64 \<times> bytes) list \<Rightarrow> (u64 \<times> bytes) option" where
  "latest [] = None"
| "latest (x # xs) =
     (case latest xs of
        None \<Rightarrow> Some x
      | Some y \<Rightarrow> if fst y < fst x then Some x else Some y)"

definition versionsOf :: "(bytes \<times> (u64 \<times> bytes) list) list \<Rightarrow> bytes \<Rightarrow> (u64 \<times> bytes) list" where
  "versionsOf db k = (case map_of db k of None \<Rightarrow> [] | Some vs \<Rightarrow> vs)"

definition inTsRange :: "hbaseGet \<Rightarrow> u64 \<Rightarrow> bool" where
  "inTsRange g t =
     (if TsRangeFrom g = 0 \<and> TsRangeTo g = 0 then True
      else TsRangeFrom g \<le> t \<and> t < TsRangeTo g)"

definition storeGet ::
  "(bytes \<times> (u64 \<times> bytes) list) list \<Rightarrow> string \<Rightarrow> hbaseGet \<Rightarrow> engine_error + ResultRow option" where
  "storeGet db tbl g =
     Inr (if (hbaseColFamilyBytes, hbaseQualifierBytes) \<in> set (GetColumns g)
          then (case latest (filter (\<lambda>(t, v). inTsRange g t) (versionsOf db (GetRow g))) of
                  None \<Rightarrow> None
                | Some (t, v) \<Rightarrow> Some \<lparr>Row = GetRow g, Columns = [(hbaseFmlAndQual, \<lparr>Value = v\<rparr>)]\<rparr>)
          else None)"

text \<open>
  The spec's reading of a version-pinned read: the value visible at the latest
  committed version \<open>\<le> V\<close>, if any.
\<close>

definition visibleAt :: "(u64 \<times> bytes) list \<Rightarrow> u64 \<Rightarrow> bytes option" where
  "visibleAt vs V = map_option snd (latest (filter (\<lambda>(t, v). t \<le> V) vs))"


section \<open>Concrete engines and states for evaluation\<close>

text \<open>
  A small table with one value per key in the fixed column, served without versions;
  the key \<open>x\<close> makes the single-row fetch fail. The cursor yields the rows between its
  start and stop keys in key order.
\<close>

definition demoRow :: "bytes \<Rightarrow> bytes \<Rightarrow> ResultRow" where
  "demoRow k v = \<lparr>Row = k, Columns = [(hbaseFmlAndQual, \<lparr>Value = v\<rparr>)]\<rparr>"

definition demoTable :: "(bytes \<times> bytes) list" where
  "demoTable = [(''a'', ''1''), (''b'', ''2''), (''c'', ''3'')]"

definition demoLookup :: "hbaseGet \<Rightarrow> ResultRow option" where
  "demoLookup g = map_option (demoRow (GetRow g)) (map_of demoTable (GetRow g))"

definition demoScan :: "bytes \<Rightarrow> bytes \<Rightarrow> ResultRow list" where
  "demoScan start stop =
     filter (\<lambda>r. start \<le> Row r \<and> (stop = [] \<or> Row r < stop)) (map (\<lambda>(k, v). demoRow k v) demoTable)"

definition demoEngine :: engine where
  "demoEngine =
     \<lparr>txnGet = (\<lambda>tbl g. if GetRow g = ''x'' then Inl (EngineError ''io'') else Inr (demoLookup g)),
      txnBatchGet = (\<lambda>tbl gs. Inr (filter (\<lambda>r. r \<noteq> None) (map demoLookup gs))),
      scanRows = (\<lambda>tbl start stop batch tr. demoScan start stop)\<rparr>"

definition demoSnapshot :: hbaseSnapshot where
  "demoSnapshot = \<lparr>txn = Some 7, storeName = ''t''\<rparr>"

definition demoWorld :: world where
  "demoWorld = \<lparr>cursors = [], release_log = [], error_log = []\<rparr>"

text \<open>The versioned store of the spec's example: key \<open>a\<close> written with 1 at version 1 and 2 at version 2.\<close>

definition demoStore :: "(bytes \<times> (u64 \<times> bytes) list) list" where
  "demoStore = [(''a'', [(1, ''1''), (2, ''2'')])]"

definition storeEngine :: "(bytes \<times> (u64 \<times> bytes) list) list \<Rightarrow> engine" where
  "storeEngine db = demoEngine\<lparr>txnGet := storeGet db\<rparr>"

text \<open>
  An engine that answers every request with a row, a columnless one for a key that has
  no value.
\<close>

definition emptyRowEngine :: engine where
  "emptyRowEngine =
     demoEngine\<lparr>txnBatchGet := (\<lambda>tbl gs. Inr (map (\<lambda>g. Some (case demoLookup g of
                                     None \<Rightarrow> \<lparr>Row = GetRow g, Columns = []\<rparr>
                                   | Some r \<Rightarrow> r)) gs)),
                txnGet := (\<lambda>tbl g. Inr (Some (case demoLookup g of
                                     None \<Rightarrow> \<lparr>Row = GetRow g, Columns = []\<rparr>
                                   | Some r \<Rightarrow> r)))\<rparr>"

text \<open>An engine whose cursor yields a row that has a column other than the fixed one.\<close>

definition oddRowEngine :: engine where
  "oddRowEngine =
     demoEngine\<lparr>scanRows := (\<lambda>tbl start stop batch tr.
                    [\<lparr>Row = ''a'', Columns = [(''f:other'', \<lparr>Value = ''9''\<rparr>)]\<rparr>])\<rparr>"

section \<open>Get\<close>

lemma withinSelector_GetRequest:
  "withinSelector (GetRequest k) r \<longleftrightarrow> fst ` set (Columns r) \<subseteq> {hbaseFmlAndQual}"
  by (simp add: withinSelector_def GetRequest_def AddColumn_def NewGet_def hbaseFmlAndQual_def)

lemma selected_noValue:
  assumes "fst ` set (Columns r) \<subseteq> {hbaseFmlAndQual}"
  shows "map_of (Columns r) hbaseFmlAndQual = None \<longleftrightarrow> Columns r = []"
proof (cases "Columns r")
  case Nil
  then show ?thesis by simp
next
  case (Cons p ps)
  with assms have "fst p = hbaseFmlAndQual" by simp
  with Cons show ?thesis by (cases p) simp
qed

text \<open>
  C2: for a live snapshot over an engine that honours the column selector, \<open>Get(k)\<close>
  fails with the NotFound error exactly when the fetched row is absent or carries no
  value in the fixed column; otherwise it returns the bytes stored in that column; and
  an engine error comes back wrapped by \<open>errors.Trace\<close> (twice), with its cause kept.
\<close>

theorem Get_NotFound_iff:
  assumes live: "txn s = Some h"
    and sel: "\<forall>r. txnGet E (storeName s) (GetRequest k) = Inr (Some r) \<longrightarrow> withinSelector (GetRequest k) r"
  shows "(failsNotFound (Get E s k) \<longleftrightarrow>
            (\<exists>r. txnGet E (storeName s) (GetRequest k) = Inr r \<and> noValue r))
       \<and> (\<forall>r c. txnGet E (storeName s) (GetRequest k) = Inr (Some r)
               \<and> map_of (Columns r) hbaseFmlAndQual = Some c
             \<longrightarrow> Get E s k = Returned (Inr (Value c)))
       \<and> (\<forall>err. txnGet E (storeName s) (GetRequest k) = Inl err
             \<longrightarrow> Get E s k = Returned (Inl (Trace (Trace (Underlying err))))
               \<and> Cause (Trace (Trace (Underlying err))) = Underlying err)"
proof (cases "txnGet E (storeName s) (GetRequest k)")
  case (Inl err)
  with live show ?thesis
    by (simp add: Get_def internalGet_def traceErr_def failsNotFound_def)
next
  case (Inr ro)
  show ?thesis
  proof (cases ro)
    case None
    with Inr live show ?thesis
      by (simp add: Get_def internalGet_def traceErr_def failsNotFound_def noValue_def)
  next
    case (Some r)
    with Inr sel have "fst ` set (Columns r) \<subseteq> {hbaseFmlAndQual}"
      by (simp add: withinSelector_GetRequest)
    then have nv: "map_of (Columns r) hbaseFmlAndQual = None \<longleftrightarrow> Columns r = []"
      by (rule selected_noValue)
    show ?thesis
    proof (cases "Columns r = []")
      case True
      with Inr Some live show ?thesis
        by (simp add: Get_def internalGet_def traceErr_def failsNotFound_def noValue_def)
    next
      case False
      with nv obtain c where "map_of (Columns r) hbaseFmlAndQual = Some c" by auto
      with False Inr Some live show ?thesis
        by (simp add: Get_def internalGet_def traceErr_def failsNotFound_def noValue_def)
    qed
  qed
qed

text \<open>
  C2 at concrete inputs: a key with a value, a key with no row, and a key on which the
  engine fails.
\<close>

theorem Get_NotFound_iff_witness:
  "txn demoSnapshot = Some 7
   \<and> Get demoEngine demoSnapshot ''a'' = Returned (Inr ''1'')
   \<and> failsNotFound (Get demoEngine demoSnapshot ''z'')
   \<and> Get demoEngine demoSnapshot ''x'' = Returned (Inl (Trace (Trace (Underlying (EngineError ''io'')))))"
proof -
  have live: "txn demoSnapshot = Some 7" by (simp add: demoSnapshot_def)
  have sel: "\<forall>r. txnGet demoEngine (storeName demoSnapshot) (GetRequest k) = Inr (Some r)
               \<longrightarrow> withinSelector (GetRequest k) r" for k
    by (auto simp add: withinSelector_GetRequest demoEngine_def demoLookup_def demoRow_def split: if_splits)
  have a: "txnGet demoEngine (storeName demoSnapshot) (GetRequest ''a'') = Inr (Some (demoRow ''a'' ''1''))"
    by (simp add: demoEngine_def demoLookup_def demoTable_def GetRequest_def AddColumn_def NewGet_def)
  have z: "txnGet demoEngine (storeName demoSnapshot) (GetRequest ''z'') = Inr None"
    by (simp add: demoEngine_def demoLookup_def demoTable_def GetRequest_def AddColumn_def NewGet_def)
  have x: "txnGet demoEngine (storeName demoSnapshot) (GetRequest ''x'') = Inl (EngineError ''io'')"
    by (simp add: demoEngine_def demoLookup_def demoTable_def GetRequest_def AddColumn_def NewGet_def)
  from Get_NotFound_iff [OF live sel, of "''a''"] a
  have 1: "Get demoEngine demoSnapshot ''a'' = Returned (Inr ''1'')"
    by (simp add: demoRow_def)
  from Get_NotFound_iff [OF live sel, of "''z''"] z
  have 2: "failsNotFound (Get demoEngine demoSnapshot ''z'')"
    by (simp add: noValue_def)
  from Get_NotFound_iff [OF live sel, of "''x''"] x
  have 3: "Get demoEngine demoSnapshot ''x'' = Returned (Inl (Trace (Trace (Underlying (EngineError ''io'')))))"
    by simp
  from live 1 2 3 show ?thesis by simp
qed


section \<open>MvccGet\<close>

lemma latest_None: "latest xs = None \<longleftrightarrow> xs = []"
  by (induction xs) (auto split: option.splits)

lemma latest_Some:
  "latest xs = Some x \<Longrightarrow> x \<in> set xs \<and> (\<forall>y \<in> set xs. fst y \<le> fst x)"
proof (induction xs arbitrary: x)
  case Nil
  then show ?case by simp
next
  case (Cons a xs)
  show ?case
  proof (cases "latest xs")
    case None
    with Cons.prems show ?thesis by (simp add: latest_None)
  next
    case (Some y)
    with Cons.IH have y: "y \<in> set xs" "\<forall>z \<in> set xs. fst z \<le> fst y" by auto
    from Some Cons.prems y show ?thesis
      by (auto split: if_splits)
  qed
qed

lemma visibleAt_Some:
  "visibleAt vs V = Some v \<Longrightarrow>
     \<exists>t. (t, v) \<in> set vs \<and> t \<le> V \<and> (\<forall>(t', v') \<in> set vs. t' \<le> V \<longrightarrow> t' \<le> t)"
proof -
  assume "visibleAt vs V = Some v"
  then obtain t where l: "latest (filter (\<lambda>(t, v). t \<le> V) vs) = Some (t, v)"
    by (auto simp add: visibleAt_def)
  from latest_Some [OF l] have "(t, v) \<in> set vs" "t \<le> V"
    and "\<forall>y \<in> set (filter (\<lambda>(t, v). t \<le> V) vs). fst y \<le> t"
    by auto
  then show ?thesis by fastforce
qed

lemma visibleAt_None:
  "visibleAt vs V = None \<longleftrightarrow> (\<forall>(t, v) \<in> set vs. \<not> t \<le> V)"
  unfolding visibleAt_def
  by (auto simp add: latest_None filter_empty_conv)

lemma below_ceiling:
  fixes V :: u64
  assumes "V \<noteq> - 1"
  shows "t < V + 1 \<longleftrightarrow> t \<le> V"
proof -
  have "t < V + 1 \<longleftrightarrow> \<not> V + 1 \<le> t" by (simp add: not_le)
  also have "\<dots> \<longleftrightarrow> \<not> V < t" using assms by (simp add: inc_less_eq_iff)
  also have "\<dots> \<longleftrightarrow> t \<le> V" by (simp add: not_less)
  finally show ?thesis .
qed

lemma ceiling_zero:
  fixes V :: u64
  shows "V + 1 = 0 \<longleftrightarrow> V = - 1"
  by (metis add.commute add_eq_0_iff2 add.right_inverse minus_minus neg_eq_iff_add_eq_0 add.inverse_inverse)

lemma inTsRange_MvccGetRequest: "inTsRange (MvccGetRequest k ver) t \<longleftrightarrow> t \<le> Ver ver"
proof (cases "Ver ver = - 1")
  case True
  then show ?thesis by (simp add: inTsRange_def MvccGetRequest_def)
next
  case False
  then have "Ver ver + 1 \<noteq> 0" by (simp add: ceiling_zero)
  with False show ?thesis by (simp add: inTsRange_def MvccGetRequest_def below_ceiling)
qed

lemma inTsRange_GetRequest: "inTsRange (GetRequest k) t"
  by (simp add: inTsRange_def GetRequest_def AddColumn_def NewGet_def)

lemma storeGet_MvccGetRequest:
  "storeGet db tbl (MvccGetRequest k ver) =
     Inr (case visibleAt (versionsOf db k) (Ver ver) of
            None \<Rightarrow> None
          | Some v \<Rightarrow> Some \<lparr>Row = k, Columns = [(hbaseFmlAndQual, \<lparr>Value = v\<rparr>)]\<rparr>)"
proof -
  have sel: "(hbaseColFamilyBytes, hbaseQualifierBytes) \<in> set (GetColumns (MvccGetRequest k ver))"
    and row: "GetRow (MvccGetRequest k ver) = k"
    by (simp_all add: MvccGetRequest_def AddColumn_def NewGet_def)
  have "(\<lambda>(t, v::bytes). inTsRange (MvccGetRequest k ver) t) = (\<lambda>(t, v). t \<le> Ver ver)"
    by (simp add: inTsRange_MvccGetRequest)
  with sel row show ?thesis
    by (auto simp add: storeGet_def visibleAt_def split: option.splits)
qed

text \<open>Plain \<open>Get\<close> over the versioned store returns the latest version of the key.\<close>

lemma Get_store_latest:
  assumes "txn s = Some h"
  shows "Get (storeEngine db) s k =
           (case latest (versionsOf db k) of
              None \<Rightarrow> Returned (Inl (Trace (Trace ErrNotExist)))
            | Some (t, v) \<Rightarrow> Returned (Inr v))"
proof -
  have "filter (\<lambda>(t, v). inTsRange (GetRequest k) t) (versionsOf db k) = versionsOf db k"
    by (simp add: inTsRange_GetRequest)
  moreover have "(hbaseColFamilyBytes, hbaseQualifierBytes) \<in> set (GetColumns (GetRequest k))"
    and "GetRow (GetRequest k) = k"
    by (simp_all add: GetRequest_def AddColumn_def NewGet_def)
  ultimately show ?thesis using assms
    by (auto simp add: Get_def internalGet_def traceErr_def storeEngine_def storeGet_def
        split: option.splits)
qed

text \<open>
  C1: for every key \<open>k\<close> and version \<open>V\<close>, \<open>MvccGet(k, V)\<close> on a live snapshot over the
  versioned store returns the value visible at the latest committed version \<open>\<le> V\<close> of
  \<open>k\<close>, and reports NotFound exactly when \<open>k\<close> has no version \<open>\<le> V\<close> (a key never
  written has none). At \<open>V = 2^64 - 1\<close> the ceiling wraps to 0 and the request is the
  one plain \<open>Get\<close> sends, which is answered from all versions, as every version is
  \<open>\<le> V\<close> there.
\<close>

theorem MvccGet_latest_visible:
  assumes live: "txn s = Some h"
  shows "MvccGet (storeEngine db) s k ver =
           (case visibleAt (versionsOf db k) (Ver ver) of
              None \<Rightarrow> Returned (Inl (Trace (Trace ErrNotExist)))
            | Some v \<Rightarrow> Returned (Inr v))
       \<and> (\<forall>v. MvccGet (storeEngine db) s k ver = Returned (Inr v) \<longrightarrow>
             (\<exists>t. (t, v) \<in> set (versionsOf db k) \<and> t \<le> Ver ver
                 \<and> (\<forall>(t', v') \<in> set (versionsOf db k). t' \<le> Ver ver \<longrightarrow> t' \<le> t)))
       \<and> (failsNotFound (MvccGet (storeEngine db) s k ver) \<longleftrightarrow>
             (\<forall>(t, v) \<in> set (versionsOf db k). \<not> t \<le> Ver ver))"
proof -
  let ?vis = "visibleAt (versionsOf db k) (Ver ver)"
  from live have eq: "MvccGet (storeEngine db) s k ver =
           (case ?vis of
              None \<Rightarrow> Returned (Inl (Trace (Trace ErrNotExist)))
            | Some v \<Rightarrow> Returned (Inr v))"
    by (simp add: MvccGet_def internalGet_def traceErr_def storeEngine_def
        storeGet_MvccGetRequest split: option.splits)
  have some: "\<exists>t. (t, v) \<in> set (versionsOf db k) \<and> t \<le> Ver ver
                 \<and> (\<forall>(t', v') \<in> set (versionsOf db k). t' \<le> Ver ver \<longrightarrow> t' \<le> t)"
    if "MvccGet (storeEngine db) s k ver = Returned (Inr v)" for v
  proof -
    from that eq have "?vis = Some v" by (cases ?vis) simp_all
    then show ?thesis by (rule visibleAt_Some)
  qed
  have none: "failsNotFound (MvccGet (storeEngine db) s k ver) \<longleftrightarrow>
             (\<forall>(t, v) \<in> set (versionsOf db k). \<not> t \<le> Ver ver)"
  proof -
    from eq have "failsNotFound (MvccGet (storeEngine db) s k ver) \<longleftrightarrow> ?vis = None"
      by (cases ?vis) (simp_all add: failsNotFound_def)
    then show ?thesis by (simp add: visibleAt_None)
  qed
  from eq some none show ?thesis by blast
qed

text \<open>
  C1 on the spec's example, \<open>a\<close> written with 1 at version 1 and 2 at version 2: the
  reads at versions 1, 2 and 0 give 1, 2 and NotFound, the read at the largest version
  gives 2, and a key never written is not found.
\<close>

theorem MvccGet_latest_visible_witness:
  "txn demoSnapshot = Some 7
   \<and> MvccGet (storeEngine demoStore) demoSnapshot ''a'' \<lparr>Ver = 1\<rparr> = Returned (Inr ''1'')
   \<and> MvccGet (storeEngine demoStore) demoSnapshot ''a'' \<lparr>Ver = 2\<rparr> = Returned (Inr ''2'')
   \<and> failsNotFound (MvccGet (storeEngine demoStore) demoSnapshot ''a'' \<lparr>Ver = 0\<rparr>)
   \<and> MvccGet (storeEngine demoStore) demoSnapshot ''a'' \<lparr>Ver = 18446744073709551615\<rparr> = Returned (Inr ''2'')
   \<and> failsNotFound (MvccGet (storeEngine demoStore) demoSnapshot ''b'' \<lparr>Ver = 2\<rparr>)"
proof -
  have live: "txn demoSnapshot = Some 7" by (simp add: demoSnapshot_def)
  have a: "versionsOf demoStore ''a'' = [(1, ''1''), (2, ''2'')]"
    and b: "versionsOf demoStore ''b'' = []"
    by (simp_all add: versionsOf_def demoStore_def)
  have vis: "visibleAt [(1, ''1''), (2, ''2'')] 1 = Some ''1''"
    "visibleAt [(1, ''1''), (2, ''2'')] 2 = Some ''2''"
    "visibleAt [(1, ''1''), (2, ''2'')] 0 = None"
    "visibleAt [(1, ''1''), (2, ''2'')] 18446744073709551615 = Some ''2''"
    "visibleAt [] 2 = None"
    by (simp_all add: visibleAt_def word_less_def word_le_def)
  from MvccGet_latest_visible [OF live, of demoStore "''a''" "\<lparr>Ver = 1\<rparr>"]
  have 1: "MvccGet (storeEngine demoStore) demoSnapshot ''a'' \<lparr>Ver = 1\<rparr> = Returned (Inr ''1'')"
    by (simp add: a vis)
  from MvccGet_latest_visible [OF live, of demoStore "''a''" "\<lparr>Ver = 2\<rparr>"]
  have 2: "MvccGet (storeEngine demoStore) demoSnapshot ''a'' \<lparr>Ver = 2\<rparr> = Returned (Inr ''2'')"
    by (simp add: a vis)
  from MvccGet_latest_visible [OF live, of demoStore "''a''" "\<lparr>Ver = 0\<rparr>"]
  have 3: "failsNotFound (MvccGet (storeEngine demoStore) demoSnapshot ''a'' \<lparr>Ver = 0\<rparr>)"
    by (simp add: a vis failsNotFound_def)
  from MvccGet_latest_visible [OF live, of demoStore "''a''" "\<lparr>Ver = 18446744073709551615\<rparr>"]
  have 4: "MvccGet (storeEngine demoStore) demoSnapshot ''a'' \<lparr>Ver = 18446744073709551615\<rparr> = Returned (Inr ''2'')"
    by (simp add: a vis)
  from MvccGet_latest_visible [OF live, of demoStore "''b''" "\<lparr>Ver = 2\<rparr>"]
  have 5: "failsNotFound (MvccGet (storeEngine demoStore) demoSnapshot ''b'' \<lparr>Ver = 2\<rparr>)"
    by (simp add: b vis failsNotFound_def)
  from live 1 2 3 4 5 show ?thesis by simp
qed


section \<open>Version ceiling\<close>



section \<open>Iterator after Close\<close>

text \<open>
  C10: after \<open>Close()\<close> both the cursor pointer and the current row of the iterator are
  nil, and \<open>Valid()\<close> returns false in any later state without a panic: it tests the
  current row first and never reaches the cursor pointer.
\<close>

theorem Valid_after_Close:
  "Valid (snd (Close it w)) w' = Returned False
   \<and> ThemisScanner (snd (Close it w)) = None
   \<and> rs (snd (Close it w)) = None"
  by (simp add: Close_def Valid_def split: option.split)

section \<open>Release is idempotent\<close>

text \<open>
  C8: \<open>Release()\<close> releases the held transaction handle once and clears the pointer; a
  second \<open>Release()\<close>, or one on an already released snapshot, changes neither the
  engine state nor the snapshot and does not panic. \<open>MvccRelease\<close> is \<open>Release\<close>.
\<close>

theorem Release_idempotent:
  "Release (snd (Release s w)) (fst (Release s w)) = Release s w
   \<and> txn (snd (Release s w)) = None
   \<and> (\<forall>h. txn s = Some h \<longrightarrow> release_log (fst (Release s w)) = release_log w @ [h])
   \<and> (txn s = None \<longrightarrow> Release s w = (w, s))
   \<and> MvccRelease s w = Release s w"
  by (simp add: Release_def MvccRelease_def txnRelease_def split: option.split)

text \<open>C8 on a snapshot holding handle 7: one release is logged, also after the second call.\<close>

theorem Release_idempotent_witness:
  "txn demoSnapshot = Some 7
   \<and> release_log (fst (Release demoSnapshot demoWorld)) = [7]
   \<and> release_log (fst (Release (snd (Release demoSnapshot demoWorld)) (fst (Release demoSnapshot demoWorld)))) = [7]
   \<and> txn (snd (Release demoSnapshot demoWorld)) = None
   \<and> Release (snd (Release demoSnapshot demoWorld)) (fst (Release demoSnapshot demoWorld))
        = (fst (Release demoSnapshot demoWorld), snd (Release demoSnapshot demoWorld))"
proof -
  have live: "txn demoSnapshot = Some 7" by (simp add: demoSnapshot_def)
  from Release_idempotent [of demoSnapshot demoWorld] live
  have 1: "release_log (fst (Release demoSnapshot demoWorld)) = [7]"
    and 2: "Release (snd (Release demoSnapshot demoWorld)) (fst (Release demoSnapshot demoWorld))
              = Release demoSnapshot demoWorld"
    and 3: "txn (snd (Release demoSnapshot demoWorld)) = None"
    by (simp_all add: demoWorld_def)
  from live 1 2 3 show ?thesis by simp
qed

section \<open>NewIterator on a parameter that is not a byte slice\<close>

text \<open>
  C5 as stated fails: given a string, \<open>NewIterator\<close> neither panics nor reports an
  error; it logs and returns the nil iterator.
\<close>

theorem NewIterator_bad_parameter_counterexample:
  "NewIterator demoEngine demoSnapshot (StringParam ''a'') demoWorld
     = Returned (demoWorld\<lparr>error_log := [''hbase iterator parameter error'']\<rparr>, None)
   \<and> NewIterator demoEngine demoSnapshot (StringParam ''a'') demoWorld \<noteq> Panic"
  by (simp add: NewIterator_def logErrorf_def demoWorld_def)

text \<open>
  C5 as amended: for every parameter whose dynamic type is not \<open>[]byte\<close>,
  \<open>NewIterator\<close> logs an error and returns the nil iterator, without opening a cursor
  or releasing anything, and without a panic.
\<close>

theorem NewIterator_bad_parameter:
  assumes "\<not> isByteSlice p"
  shows "NewIterator E s p w = Returned (logErrorf ''hbase iterator parameter error'' w, None)
         \<and> cursors (logErrorf ''hbase iterator parameter error'' w) = cursors w
         \<and> release_log (logErrorf ''hbase iterator parameter error'' w) = release_log w"
  using assms by (cases p) (simp_all add: NewIterator_def isByteSlice_def logErrorf_def)

text \<open>C5 as amended, at an integer parameter.\<close>

theorem NewIterator_bad_parameter_witness:
  "\<not> isByteSlice (IntParam 3)
   \<and> NewIterator demoEngine demoSnapshot (IntParam 3) demoWorld
       = Returned (logErrorf ''hbase iterator parameter error'' demoWorld, None)"
proof -
  have h: "\<not> isByteSlice (IntParam 3)" by (simp add: isByteSlice_def)
  from NewIterator_bad_parameter [OF h, of demoEngine demoSnapshot demoWorld] h
  show ?thesis by simp
qed

section \<open>BatchGet\<close>

text \<open>
  When every returned row pointer is non-nil and its row carries the fixed column, the
  loop of \<open>BatchGet\<close> stores each row's value under its key.
\<close>

lemma BatchGetRows_ok:
  assumes "\<forall>r \<in> set rows. \<exists>row. r = Some row \<and> hasValue row"
  shows "BatchGetRows rows m = Returned (foldl putRow m (map the rows))"
  using assms
proof (induction rows arbitrary: m)
  case Nil
  then show ?case by simp
next
  case (Cons r rows)
  then obtain row c where "r = Some row" "map_of (Columns row) hbaseFmlAndQual = Some c"
    by (auto simp add: hasValue_def)
  then have "r = Some row" and "map_of (Columns row) hbaseFmlAndQual = Some c"
    and "m(Row row \<mapsto> Value c) = putRow m row"
    by (simp_all add: putRow_def rowValue_def)
  with Cons show ?case by simp
qed

lemma putRow_apply: "putRow m x k = (if k = Row x then Some (rowValue x) else m k)"
  by (simp add: putRow_def)

lemma dom_foldl_putRow: "dom (foldl putRow m rows) = dom m \<union> Row ` set rows"
  by (induction rows arbitrary: m) (auto simp add: putRow_def)

lemma foldl_putRow_value:
  assumes "distinct (map Row rows)" and "row \<in> set rows"
  shows "foldl putRow m rows (Row row) = Some (rowValue row)"
  using assms
proof (induction rows arbitrary: m rule: rev_induct)
  case Nil
  then show ?case by simp
next
  case (snoc x xs)
  show ?case
  proof (cases "Row row = Row x")
    case True
    with snoc.prems have "row = x" by (auto simp add: image_iff)
    then show ?thesis by (simp add: putRow_apply)
  next
    case False
    with snoc.prems have "row \<in> set xs" "distinct (map Row xs)" by auto
    with snoc.IH False show ?thesis by (simp add: putRow_apply)
  qed
qed

lemma BatchGet_existing_rows:
  assumes "txn s = Some h"
    and "txnBatchGet E (storeName s) (map GetRequest keys) = Inr rows"
    and "\<forall>r \<in> set rows. \<exists>row. r = Some row \<and> hasValue row"
  shows "\<exists>m. BatchGet E s keys = Returned (Inr m)
            \<and> dom m = Row ` the ` set rows
            \<and> (distinct (map (Row \<circ> the) rows) \<longrightarrow> (\<forall>r \<in> set rows. m (Row (the r)) = Some (rowValue (the r))))"
proof -
  from assms have "BatchGet E s keys = Returned (Inr (foldl putRow Map.empty (map the rows)))"
    by (simp add: BatchGet_def BatchGetRows_ok)
  moreover have "dom (foldl putRow Map.empty (map the rows)) = Row ` the ` set rows"
    by (simp add: dom_foldl_putRow)
  moreover have "\<forall>r \<in> set rows. foldl putRow Map.empty (map the rows) (Row (the r)) = Some (rowValue (the r))"
    if "distinct (map (Row \<circ> the) rows)"
    using that foldl_putRow_value [of "map the rows"] by (simp add: comp_def)
  ultimately show ?thesis by blast
qed

text \<open>
  C3: keys with no result row or no value in the fixed column are to be absent from the
  mapping and not cause an error. Keys for which the engine returns no row are absent
  (third part). But when the engine answers the missing key \<open>z\<close> with a columnless
  row, \<open>BatchGet\<close> panics on the nil cell, where \<open>Get\<close> on the same row reports
  NotFound.
\<close>

theorem BatchGet_columnless_row:
  "BatchGet emptyRowEngine demoSnapshot [''a'', ''z''] = Panic
   \<and> failsNotFound (Get emptyRowEngine demoSnapshot ''z'')
   \<and> (\<exists>m. BatchGet demoEngine demoSnapshot [''a'', ''z'', ''b''] = Returned (Inr m)
          \<and> m ''a'' = Some ''1'' \<and> m ''b'' = Some ''2'' \<and> m ''z'' = None)"
  by (simp add: BatchGet_def Get_def internalGet_def traceErr_def failsNotFound_def emptyRowEngine_def demoEngine_def demoLookup_def
      demoTable_def demoRow_def demoSnapshot_def GetRequest_def AddColumn_def NewGet_def)

section \<open>RangeGet\<close>

lemma setPos_same: "setPos sc (scPos (cursors w ! sc)) w = w"
  by (simp add: setPos_def)

lemma setPos_setPos: "setPos sc n (setPos sc n' w) = setPos sc n w"
  by (cases "sc < length (cursors w)") (simp_all add: setPos_def not_less list_update_beyond)

lemma length_cursors_setPos: "length (cursors (setPos sc n w)) = length (cursors w)"
  by (simp add: setPos_def)

lemma scannerNext_None:
  assumes "sc < length (cursors w)"
    and "scClosed (cursors w ! sc) \<or> length (scannerRows E (cursors w ! sc)) \<le> scPos (cursors w ! sc)"
  shows "scannerNext E sc w = (w, None)"
  using assms by (auto simp add: scannerNext_def Let_def)

lemma scannerNext_Some:
  assumes "sc < length (cursors w)"
    and "\<not> scClosed (cursors w ! sc)"
    and "scPos (cursors w ! sc) < length (scannerRows E (cursors w ! sc))"
  shows "scannerNext E sc w =
           (setPos sc (Suc (scPos (cursors w ! sc))) w,
            Some (scannerRows E (cursors w ! sc) ! scPos (cursors w ! sc)))"
  using assms by (simp add: scannerNext_def Let_def setPos_def)

lemma scannerNext_world:
  assumes "sc < length (cursors w)"
  shows "\<exists>n. fst (scannerNext E sc w) = setPos sc n w"
proof (cases "scClosed (cursors w ! sc) \<or> length (scannerRows E (cursors w ! sc)) \<le> scPos (cursors w ! sc)")
  case True
  with assms have "fst (scannerNext E sc w) = w" by (simp add: scannerNext_None)
  then show ?thesis using setPos_same [of sc w] by metis
next
  case False
  with assms show ?thesis by (auto simp add: scannerNext_Some)
qed

lemma RangeGetLoop_done:
  "\<not> i < limit \<Longrightarrow> RangeGetLoop E sc limit i w m = (w, Returned m)"
  by (subst RangeGetLoop.simps) simp

lemma RangeGetLoop_end:
  "i < limit \<Longrightarrow> scannerNext E sc w = (w', None) \<Longrightarrow>
   RangeGetLoop E sc limit i w m = (w', Returned m)"
  by (subst RangeGetLoop.simps) simp

lemma RangeGetLoop_columnless:
  "i < limit \<Longrightarrow> scannerNext E sc w = (w', Some row) \<Longrightarrow> Columns row = [] \<Longrightarrow>
   RangeGetLoop E sc limit i w m = (w', Returned m)"
  by (subst RangeGetLoop.simps) simp

lemma RangeGetLoop_nocell:
  "i < limit \<Longrightarrow> scannerNext E sc w = (w', Some row) \<Longrightarrow> Columns row \<noteq> [] \<Longrightarrow>
   map_of (Columns row) hbaseFmlAndQual = None \<Longrightarrow>
   RangeGetLoop E sc limit i w m = (w', Panic)"
  by (subst RangeGetLoop.simps) simp

lemma RangeGetLoop_put:
  "i < limit \<Longrightarrow> scannerNext E sc w = (w', Some row) \<Longrightarrow> Columns row \<noteq> [] \<Longrightarrow>
   map_of (Columns row) hbaseFmlAndQual = Some c \<Longrightarrow>
   RangeGetLoop E sc limit i w m = RangeGetLoop E sc limit (i + 1) w' (m(Row row \<mapsto> Value c))"
  by (subst RangeGetLoop.simps) simp

lemma RangeGetLoop_world:
  "sc < length (cursors w) \<Longrightarrow> \<exists>n. fst (RangeGetLoop E sc limit i w m) = setPos sc n w"
proof (induction E sc limit i w m rule: RangeGetLoop.induct)
  case (1 E sc limit i w m)
  show ?case
  proof (cases "i < limit")
    case False
    then have "fst (RangeGetLoop E sc limit i w m) = w" by (simp add: RangeGetLoop_done)
    then show ?thesis using setPos_same [of sc w] by metis
  next
    case True
    obtain w' r where nx: "scannerNext E sc w = (w', r)" by (cases "scannerNext E sc w")
    from scannerNext_world [OF "1.prems", of E] nx obtain n' where w': "w' = setPos sc n' w" by auto
    show ?thesis
    proof (cases r)
      case None
      with True nx have "fst (RangeGetLoop E sc limit i w m) = w'" by (simp add: RangeGetLoop_end)
      with w' show ?thesis by blast
    next
      case (Some row)
      show ?thesis
      proof (cases "Columns row = []")
        case True
        with \<open>i < limit\<close> nx Some have "fst (RangeGetLoop E sc limit i w m) = w'"
          by (simp add: RangeGetLoop_columnless)
        with w' show ?thesis by blast
      next
        case False
        show ?thesis
        proof (cases "map_of (Columns row) hbaseFmlAndQual")
          case None
          with True nx Some False have "fst (RangeGetLoop E sc limit i w m) = w'"
            by (simp add: RangeGetLoop_nocell)
          with w' show ?thesis by blast
        next
          case c: (Some c)
          from "1.prems" w' have len: "sc < length (cursors w')" by (simp add: length_cursors_setPos)
          from False have pos: "0 < length (Columns row)" by simp
          from "1.IH" [OF True nx [symmetric] Some pos c len]
          obtain n where "fst (RangeGetLoop E sc limit (i + 1) w' (m(Row row \<mapsto> Value c))) = setPos sc n w'"
            by blast
          with True nx Some False c w' have "fst (RangeGetLoop E sc limit i w m) = setPos sc n w"
            by (simp add: RangeGetLoop_put setPos_setPos)
          then show ?thesis by blast
        qed
      qed
    qed
  qed
qed

lemma cursor_setPos:
  "sc < length (cursors w) \<Longrightarrow> cursors (setPos sc n w) ! sc = (cursors w ! sc)\<lparr>scPos := n\<rparr>"
  by (simp add: setPos_def)

lemma scannerRows_scPos: "scannerRows E (c\<lparr>scPos := n\<rparr>) = scannerRows E c"
  by (simp add: scannerRows_def)

lemma putRow_hasValue:
  "map_of (Columns row) hbaseFmlAndQual = Some c \<Longrightarrow> m(Row row \<mapsto> Value c) = putRow m row"
  by (simp add: putRow_def rowValue_def)

lemma RangeGetLoop_result:
  "sc < length (cursors w) \<Longrightarrow> \<not> scClosed (cursors w ! sc) \<Longrightarrow>
   snd (RangeGetLoop E sc limit i w m) =
     loopOnRows (drop (scPos (cursors w ! sc)) (scannerRows E (cursors w ! sc))) (nat (limit - i)) m"
proof (induction E sc limit i w m rule: RangeGetLoop.induct)
  case (1 E sc limit i w m)
  let ?c = "cursors w ! sc"
  let ?rows = "scannerRows E ?c"
  show ?case
  proof (cases "i < limit")
    case False
    then have "nat (limit - i) = 0" by simp
    with False show ?thesis by (simp add: RangeGetLoop_done)
  next
    case True
    then have n: "nat (limit - i) = Suc (nat (limit - (i + 1)))" by simp
    show ?thesis
    proof (cases "scPos ?c < length ?rows")
      case False
      with "1.prems" have "scannerNext E sc w = (w, None)" by (simp add: scannerNext_None)
      with True False n show ?thesis by (simp add: RangeGetLoop_end)
    next
      case pos: True
      let ?row = "?rows ! scPos ?c"
      let ?w' = "setPos sc (Suc (scPos ?c)) w"
      from "1.prems" pos have nx: "scannerNext E sc w = (?w', Some ?row)"
        by (simp add: scannerNext_Some)
      from pos have dr: "drop (scPos ?c) ?rows = ?row # drop (Suc (scPos ?c)) ?rows"
        by (simp add: Cons_nth_drop_Suc)
      show ?thesis
      proof (cases "map_of (Columns ?row) hbaseFmlAndQual")
        case None
        show ?thesis
        proof (cases "Columns ?row = []")
          case True
          with \<open>i < limit\<close> nx dr n show ?thesis by (simp add: RangeGetLoop_columnless)
        next
          case False
          with \<open>i < limit\<close> nx dr n None show ?thesis by (simp add: RangeGetLoop_nocell hasValue_def)
        qed
      next
        case (Some c)
        show ?thesis
        proof (cases "Columns ?row = []")
          case True
          with \<open>i < limit\<close> nx dr n show ?thesis by (simp add: RangeGetLoop_columnless)
        next
          case False
          from "1.prems" have c': "cursors ?w' ! sc = ?c\<lparr>scPos := Suc (scPos ?c)\<rparr>"
            and len: "sc < length (cursors ?w')"
            by (simp_all add: cursor_setPos length_cursors_setPos)
          with "1.prems" have open': "\<not> scClosed (cursors ?w' ! sc)" by simp
          from False have pos': "0 < length (Columns ?row)" by simp
          from "1.IH" [OF True nx [symmetric] refl pos' Some len open']
          have ih: "snd (RangeGetLoop E sc limit (i + 1) ?w' (m(Row ?row \<mapsto> Value c))) =
                  loopOnRows (drop (Suc (scPos ?c)) ?rows) (nat (limit - (i + 1))) (m(Row ?row \<mapsto> Value c))"
            by (simp add: c' scannerRows_scPos fun_upd_def)
          have step: "RangeGetLoop E sc limit i w m =
                  RangeGetLoop E sc limit (i + 1) ?w' (m(Row ?row \<mapsto> Value c))"
            by (rule RangeGetLoop_put [OF True nx False Some])
          have "loopOnRows (?row # drop (Suc (scPos ?c)) ?rows) (Suc (nat (limit - (i + 1)))) m =
                  loopOnRows (drop (Suc (scPos ?c)) ?rows) (nat (limit - (i + 1))) (m(Row ?row \<mapsto> Value c))"
            using False Some by (simp add: hasValue_def putRow_def rowValue_def)
          with dr n have rhs: "loopOnRows (drop (scPos ?c) ?rows) (nat (limit - i)) m =
                  loopOnRows (drop (Suc (scPos ?c)) ?rows) (nat (limit - (i + 1))) (m(Row ?row \<mapsto> Value c))"
            by (simp only:)
          from step ih rhs show ?thesis by (simp only:)
        qed
      qed
    qed
  qed
qed

lemma loopOnRows_ok:
  "\<forall>r \<in> set rows. Columns r \<noteq> [] \<longrightarrow> hasValue r \<Longrightarrow>
   loopOnRows rows n m = Returned (foldl putRow m (take n (qualifying rows)))"
  by (induction rows n m rule: loopOnRows.induct) (simp_all add: qualifying_def)


lemma RangeGet_fresh:
  assumes "txn s = Some h"
  shows "snd (RangeGet E s start end limit w) =
           (case loopOnRows (scanRows E (storeName s) start end limit None) (nat limit) Map.empty of
              Panic \<Rightarrow> Panic
            | Returned m \<Rightarrow> Returned (Inr m))"
proof -
  let ?w1 = "fst (GetScanner (storeName s) start end limit w)"
  let ?sc = "length (cursors w)"
  have sc: "snd (GetScanner (storeName s) start end limit w) = ?sc"
    and len: "?sc < length (cursors ?w1)"
    and fresh: "cursors ?w1 ! ?sc =
       \<lparr>scTable = storeName s, scStart = start, scStop = end, scBatch = limit,
        scTimeRange = None, scPos = 0, scClosed = False, scCloses = 0\<rparr>"
    by (simp_all add: GetScanner_def)
  from fresh have "\<not> scClosed (cursors ?w1 ! ?sc)" by simp
  from RangeGetLoop_result [OF len this, of E limit 0 Map.empty]
  have "snd (RangeGetLoop E ?sc limit 0 ?w1 Map.empty) =
          loopOnRows (scanRows E (storeName s) start end limit None) (nat limit) Map.empty"
    by (simp add: fresh scannerRows_def)
  with assms sc show ?thesis
    by (simp add: RangeGet_def split_beta)
qed

text \<open>
  C7: on a live snapshot, whatever way \<open>RangeGet\<close> ends (limit reached, break at end
  of data or at a columnless row, or a panic inside the loop), the cursor it opened is
  closed, exactly once, in the state it leaves behind. The function has no error return
  of its own.
\<close>

theorem RangeGet_closes_cursor:
  assumes "txn s = Some h"
  shows "(\<exists>n. cursors (fst (RangeGet E s start end limit w)) =
            cursors w @ [\<lparr>scTable = storeName s, scStart = start, scStop = end, scBatch = limit,
                          scTimeRange = None, scPos = n, scClosed = True, scCloses = 1\<rparr>])
         \<and> scannerClosed (length (cursors w)) (fst (RangeGet E s start end limit w))"
proof -
  let ?w1 = "fst (GetScanner (storeName s) start end limit w)"
  let ?sc = "length (cursors w)"
  have sc: "snd (GetScanner (storeName s) start end limit w) = ?sc"
    and len: "?sc < length (cursors ?w1)"
    and w1: "cursors ?w1 = cursors w @
       [\<lparr>scTable = storeName s, scStart = start, scStop = end, scBatch = limit,
         scTimeRange = None, scPos = 0, scClosed = False, scCloses = 0\<rparr>]"
    by (simp_all add: GetScanner_def)
  from RangeGetLoop_world [OF len, of E limit 0 Map.empty]
  obtain n where w2: "fst (RangeGetLoop E ?sc limit 0 ?w1 Map.empty) = setPos ?sc n ?w1" by blast
  from assms sc have "fst (RangeGet E s start end limit w) =
      scannerClose ?sc (fst (RangeGetLoop E ?sc limit 0 ?w1 Map.empty))"
    by (simp add: RangeGet_def split_beta)
  with w2 have "fst (RangeGet E s start end limit w) = scannerClose ?sc (setPos ?sc n ?w1)" by simp
  then have c: "cursors (fst (RangeGet E s start end limit w)) =
      cursors w @ [\<lparr>scTable = storeName s, scStart = start, scStop = end, scBatch = limit,
                     scTimeRange = None, scPos = n, scClosed = True, scCloses = 1\<rparr>]"
    by (simp add: scannerClose_def setPos_def w1)
  then have "scannerClosed ?sc (fst (RangeGet E s start end limit w))"
    by (simp add: scannerClosed_def)
  with c show ?thesis by blast
qed

text \<open>C7 on three runs: limit reached, end of data before the limit, and a panic in the loop.\<close>

theorem RangeGet_closes_cursor_witness:
  "txn demoSnapshot = Some 7
   \<and> scannerClosed 0 (fst (RangeGet demoEngine demoSnapshot ''a'' ''d'' 2 demoWorld))
   \<and> scannerClosed 0 (fst (RangeGet demoEngine demoSnapshot ''a'' ''d'' 5 demoWorld))
   \<and> snd (RangeGet oddRowEngine demoSnapshot ''a'' ''d'' 5 demoWorld) = Panic
   \<and> scannerClosed 0 (fst (RangeGet oddRowEngine demoSnapshot ''a'' ''d'' 5 demoWorld))"
proof -
  have live: "txn demoSnapshot = Some 7" by (simp add: demoSnapshot_def)
  have w0: "length (cursors demoWorld) = 0" by (simp add: demoWorld_def)
  from RangeGet_closes_cursor [OF live, of demoEngine "''a''" "''d''" 2 demoWorld] w0
  have 1: "scannerClosed 0 (fst (RangeGet demoEngine demoSnapshot ''a'' ''d'' 2 demoWorld))"
    by simp
  from RangeGet_closes_cursor [OF live, of demoEngine "''a''" "''d''" 5 demoWorld] w0
  have 2: "scannerClosed 0 (fst (RangeGet demoEngine demoSnapshot ''a'' ''d'' 5 demoWorld))"
    by simp
  from RangeGet_closes_cursor [OF live, of oddRowEngine "''a''" "''d''" 5 demoWorld] w0
  have 3: "scannerClosed 0 (fst (RangeGet oddRowEngine demoSnapshot ''a'' ''d'' 5 demoWorld))"
    by simp
  have "loopOnRows (scanRows oddRowEngine (storeName demoSnapshot) ''a'' ''d'' 5 None) (nat 5) Map.empty = Panic"
    by (simp add: eval_nat_numeral oddRowEngine_def hasValue_def hbaseFmlAndQual_def colKey_def
        hbaseColFamilyBytes_def hbaseQualifierBytes_def)
  then have 4: "snd (RangeGet oddRowEngine demoSnapshot ''a'' ''d'' 5 demoWorld) = Panic"
    by (simp only: RangeGet_fresh [OF live] outcome.simps)
  from live 1 2 3 4 show ?thesis by simp
qed

text \<open>
  C4: let the cursor over \<open>(start, end)\<close> yield rows that lie in \<open>[start, end]\<close>, have
  distinct keys and carry the fixed column whenever they have any column. Then
  \<open>RangeGet(start, end, limit)\<close> returns a mapping and a nil error; the mapping holds
  the first \<open>limit\<close> rows before the first columnless row or the end of data, so it has
  at most \<open>limit\<close> entries, all keys lie in \<open>[start, end]\<close>, it has fewer than
  \<open>limit\<close> entries only when the cursor ended or gave a columnless row, and it is
  empty when no row qualifies.
\<close>

theorem RangeGet_bounded:
  fixes E s start "end" limit
  defines "rows \<equiv> scanRows E (storeName s) start end limit None"
  assumes live: "txn s = Some h"
    and wf: "\<forall>r \<in> set rows. Columns r \<noteq> [] \<longrightarrow> hasValue r"
    and inrange: "\<forall>r \<in> set rows. start \<le> Row r \<and> Row r \<le> end"
    and dist: "distinct (map Row rows)"
  shows "\<exists>w' m. RangeGet E s start end limit w = (w', Returned (Inr m))
      \<and> dom m = Row ` set (take (nat limit) (qualifying rows))
      \<and> (\<forall>r \<in> set (take (nat limit) (qualifying rows)). m (Row r) = Some (rowValue r))
      \<and> (0 \<le> limit \<longrightarrow> int (card (dom m)) \<le> limit)
      \<and> (\<forall>k \<in> dom m. start \<le> k \<and> k \<le> end)
      \<and> (int (card (dom m)) < limit \<longrightarrow>
            length rows = card (dom m) \<or> Columns (rows ! card (dom m)) = [])
      \<and> (qualifying rows = [] \<longrightarrow> m = Map.empty)"
proof -
  let ?taken = "take (nat limit) (qualifying rows)"
  let ?m = "foldl putRow Map.empty ?taken"
  from RangeGet_fresh [OF live, of E start "end" limit w] wf
  have "snd (RangeGet E s start end limit w) = Returned (Inr ?m)"
    by (simp add: rows_def loopOnRows_ok)
  then have res: "RangeGet E s start end limit w = (fst (RangeGet E s start end limit w), Returned (Inr ?m))"
    by (metis prod.collapse)
  have dom: "dom ?m = Row ` set ?taken" by (simp add: dom_foldl_putRow)
  have q: "qualifying rows = take (length (qualifying rows)) rows"
    unfolding qualifying_def by (rule takeWhile_eq_take)
  then have tk: "?taken = take (min (nat limit) (length (qualifying rows))) rows"
    by (metis take_take)
  from dist have dt: "distinct (map Row ?taken)"
    by (subst tk) (simp add: take_map [symmetric])
  have sub: "set ?taken \<subseteq> set rows"
    by (subst tk) (rule set_take_subset)
  from dt have vals: "\<forall>r \<in> set ?taken. ?m (Row r) = Some (rowValue r)"
    by (simp add: foldl_putRow_value)
  from dt have "card (Row ` set ?taken) = length ?taken"
    by (metis distinct_card length_map list.set_map)
  with dom have card: "card (dom ?m) = min (nat limit) (length (qualifying rows))"
    by (simp add: min.commute)
  then have "card (dom ?m) \<le> nat limit" by simp
  then have le: "0 \<le> limit \<longrightarrow> int (card (dom ?m)) \<le> limit" by linarith
  from dom sub inrange have rng: "\<forall>k \<in> dom ?m. start \<le> k \<and> k \<le> end" by auto
  have fewer: "length rows = card (dom ?m) \<or> Columns (rows ! card (dom ?m)) = []"
    if "int (card (dom ?m)) < limit"
  proof -
    from that card have c: "card (dom ?m) = length (qualifying rows)" by simp
    show ?thesis
    proof (cases "length (qualifying rows) < length rows")
      case True
      then have "\<not> Columns (rows ! length (qualifying rows)) \<noteq> []"
        unfolding qualifying_def by (rule nth_length_takeWhile)
      with c show ?thesis by simp
    next
      case False
      moreover have "length (qualifying rows) \<le> length rows"
        unfolding qualifying_def by (rule length_takeWhile_le)
      ultimately show ?thesis using c by simp
    qed
  qed
  have emp: "qualifying rows = [] \<longrightarrow> ?m = Map.empty" by simp
  from res dom vals le rng fewer emp show ?thesis by blast
qed

text \<open>C4 on the demo table: range exhausted before the limit, limit reached, and no row in range.\<close>

theorem RangeGet_bounded_witness:
  "txn demoSnapshot = Some 7
   \<and> (\<exists>w' m. RangeGet demoEngine demoSnapshot ''a'' ''c'' 5 demoWorld = (w', Returned (Inr m))
          \<and> dom m = {''a'', ''b''} \<and> m ''a'' = Some ''1'' \<and> m ''b'' = Some ''2'')
   \<and> (\<exists>w' m. RangeGet demoEngine demoSnapshot ''a'' ''c'' 1 demoWorld = (w', Returned (Inr m))
          \<and> dom m = {''a''})
   \<and> (\<exists>w'. RangeGet demoEngine demoSnapshot ''x'' ''z'' 5 demoWorld = (w', Returned (Inr Map.empty)))"
proof -
  have live: "txn demoSnapshot = Some 7" by (simp add: demoSnapshot_def)
  have rows: "scanRows demoEngine (storeName demoSnapshot) ''a'' ''c'' n None
                = [demoRow ''a'' ''1'', demoRow ''b'' ''2'']" for n
    by (simp add: demoEngine_def demoScan_def demoTable_def demoRow_def)
  have rowsx: "scanRows demoEngine (storeName demoSnapshot) ''x'' ''z'' n None = []" for n
    by (simp add: demoEngine_def demoScan_def demoTable_def demoRow_def)
  have v: "hasValue (demoRow k x)" "rowValue (demoRow k x) = x" "Row (demoRow k x) = k"
    "Columns (demoRow k x) \<noteq> []" for k x
    by (simp_all add: demoRow_def hasValue_def rowValue_def)
  have wf: "\<forall>r \<in> set (scanRows demoEngine (storeName demoSnapshot) ''a'' ''c'' n None).
              Columns r \<noteq> [] \<longrightarrow> hasValue r" for n
    by (simp add: rows v)
  have inr: "\<forall>r \<in> set (scanRows demoEngine (storeName demoSnapshot) ''a'' ''c'' n None).
              ''a'' \<le> Row r \<and> Row r \<le> ''c''" for n
    by (simp add: rows v)
  have dist: "distinct (map Row (scanRows demoEngine (storeName demoSnapshot) ''a'' ''c'' n None))" for n
    by (simp add: rows v)
  from RangeGet_bounded [OF live wf inr dist, of 5 demoWorld]
  have 1: "\<exists>w' m. RangeGet demoEngine demoSnapshot ''a'' ''c'' 5 demoWorld = (w', Returned (Inr m))
          \<and> dom m = {''a'', ''b''} \<and> m ''a'' = Some ''1'' \<and> m ''b'' = Some ''2''"
    by (auto simp add: rows qualifying_def v)
  from RangeGet_bounded [OF live wf inr dist, of 1 demoWorld]
  have 2: "\<exists>w' m. RangeGet demoEngine demoSnapshot ''a'' ''c'' 1 demoWorld = (w', Returned (Inr m))
          \<and> dom m = {''a''}"
    by (auto simp add: rows qualifying_def v)
  have 3: "\<exists>w'. RangeGet demoEngine demoSnapshot ''x'' ''z'' 5 demoWorld = (w', Returned (Inr Map.empty))"
    using RangeGet_bounded [OF live, of demoEngine "''x''" "''z''" 5 demoWorld]
    by (auto simp add: rowsx qualifying_def)
  from live 1 2 3 show ?thesis by blast
qed

section \<open>Iterator construction\<close>

text \<open>
  C6: an iterator returned by \<open>NewIterator\<close> (on a byte slice) or by
  \<open>NewMvccIterator\<close> has already advanced its cursor once: \<open>Valid()\<close> is true and
  \<open>Key()\<close>, \<open>Value()\<close> are those of the first row when the range is non-empty, and
  \<open>Valid()\<close> is false when the range is empty.
\<close>

theorem iterator_primed:
  assumes "txn s = Some h"
  shows "primedOn (scanRows E (storeName s) k [] hbaseBatchSize None)
           (NewIterator E s (ByteSlice k) w)
       \<and> primedOn (scanRows E (storeName s) k [] hbaseBatchSize (Some (0, Ver ver + 1)))
           (NewMvccIterator E s k ver w)"
proof -
  have a: "primedOn (scanRows E (storeName s) k [] hbaseBatchSize None)
           (NewIterator E s (ByteSlice k) w)"
    using assms
    by (cases "scanRows E (storeName s) k [] hbaseBatchSize None")
       (auto simp add: primedOn_def NewIterator_def GetScanner_def newInnerScanner_def Next_def
          scannerNext_def scannerRows_def Let_def nth_append Valid_def scannerClosed_def Key_def
          ValueOf_def hasValue_def rowValue_def)
  have b: "primedOn (scanRows E (storeName s) k [] hbaseBatchSize (Some (0, Ver ver + 1)))
           (NewMvccIterator E s k ver w)"
    using assms
    by (cases "scanRows E (storeName s) k [] hbaseBatchSize (Some (0, Ver ver + 1))")
       (auto simp add: primedOn_def NewMvccIterator_def GetScanner_def SetTimeRange_def
          newInnerScanner_def Next_def
          scannerNext_def scannerRows_def Let_def nth_append Valid_def scannerClosed_def Key_def
          ValueOf_def hasValue_def rowValue_def)
  from a b show ?thesis by simp
qed

text \<open>C6 on the demo table: a scan from \<open>b\<close>, a scan from beyond the last key, and a versioned scan from \<open>c\<close>.\<close>

theorem iterator_primed_witness:
  "txn demoSnapshot = Some 7
   \<and> (\<exists>w' it. NewIterator demoEngine demoSnapshot (ByteSlice ''b'') demoWorld = Returned (w', Some it)
          \<and> Valid it w' = Returned True \<and> Key it = Returned ''b'' \<and> ValueOf it = Returned ''2'')
   \<and> (\<exists>w' it. NewIterator demoEngine demoSnapshot (ByteSlice ''x'') demoWorld = Returned (w', Some it)
          \<and> Valid it w' = Returned False)
   \<and> (\<exists>w' it. NewMvccIterator demoEngine demoSnapshot ''c'' \<lparr>Ver = 3\<rparr> demoWorld = Returned (w', Some it)
          \<and> Valid it w' = Returned True \<and> Key it = Returned ''c'' \<and> ValueOf it = Returned ''3'')"
proof -
  have live: "txn demoSnapshot = Some 7" by (simp add: demoSnapshot_def)
  have rowsb: "scanRows demoEngine (storeName demoSnapshot) ''b'' [] n tr
                = [demoRow ''b'' ''2'', demoRow ''c'' ''3'']" for n tr
    by (simp add: demoEngine_def demoScan_def demoTable_def demoRow_def)
  have rowsc: "scanRows demoEngine (storeName demoSnapshot) ''c'' [] n tr = [demoRow ''c'' ''3'']" for n tr
    by (simp add: demoEngine_def demoScan_def demoTable_def demoRow_def)
  have rowsx: "scanRows demoEngine (storeName demoSnapshot) ''x'' [] n tr = []" for n tr
    by (simp add: demoEngine_def demoScan_def demoTable_def demoRow_def)
  have v: "hasValue (demoRow k x)" "rowValue (demoRow k x) = x" "Row (demoRow k x) = k" for k x
    by (simp_all add: demoRow_def hasValue_def rowValue_def)
  from iterator_primed [OF live, of demoEngine "''b''" demoWorld "\<lparr>Ver = 3\<rparr>"]
  have 1: "\<exists>w' it. NewIterator demoEngine demoSnapshot (ByteSlice ''b'') demoWorld = Returned (w', Some it)
          \<and> Valid it w' = Returned True \<and> Key it = Returned ''b'' \<and> ValueOf it = Returned ''2''"
    by (auto simp add: primedOn_def rowsb v split: outcome.splits option.splits prod.splits)
  from iterator_primed [OF live, of demoEngine "''x''" demoWorld "\<lparr>Ver = 3\<rparr>"]
  have 2: "\<exists>w' it. NewIterator demoEngine demoSnapshot (ByteSlice ''x'') demoWorld = Returned (w', Some it)
          \<and> Valid it w' = Returned False"
    by (auto simp add: primedOn_def rowsx split: outcome.splits option.splits prod.splits)
  from iterator_primed [OF live, of demoEngine "''c''" demoWorld "\<lparr>Ver = 3\<rparr>"]
  have 3: "\<exists>w' it. NewMvccIterator demoEngine demoSnapshot ''c'' \<lparr>Ver = 3\<rparr> demoWorld = Returned (w', Some it)
          \<and> Valid it w' = Returned True \<and> Key it = Returned ''c'' \<and> ValueOf it = Returned ''3''"
    by (auto simp add: primedOn_def rowsc v split: outcome.splits option.splits prod.splits)
  from live 1 2 3 show ?thesis by blast
qed

end
